theory Spec2Isabelle
  imports Complex_Main "HOL-Library.Product_Lexorder" "HOL-Library.Multiset"
begin

section \<open>Data model of the CPU scheduling simulator (static/js/app.js)\<close>

text \<open>
  A process as \<open>loadProcesses\<close> receives it from the backend: four integer fields
  (\<open>handleAddProcess\<close> and \<open>editProcess\<close> build them with \<open>parseInt\<close>).
  JavaScript numbers are modelled as unbounded integers.
\<close>

record proc_in =
  pid :: int
  arrival_time :: int
  burst_time :: int
  priority :: int

text \<open>
  The object \<open>simulateScheduling\<close> builds from it: the four fields and
  \<open>remaining_time\<close>. The three result fields are absent (\<open>undefined\<close>, here
  \<open>None\<close>) until a scheduler assigns them.
\<close>

record process = proc_in +
  remaining_time :: int
  completion_time :: "int option"
  turnaround_time :: "int option"
  waiting_time :: "int option"

text \<open>One entry of the timeline; the source's field \<open>end\<close> is \<open>seg_end\<close> here.\<close>

record segment =
  seg_pid :: int
  start :: int
  seg_end :: int
  duration :: int

text \<open>
  The value of a JavaScript arithmetic expression over integers that may divide:
  a finite quotient (kept exact), an infinity or NaN.
\<close>

datatype js_number = Num rat | PosInfinity | NegInfinity | NaN

text \<open>
  The statistics object. \<open>toFixed(2)\<close> turns the three averages and the throughput
  into strings; the model keeps the number that is formatted (\<open>toFixed\<close> prints
  \<open>Infinity\<close> and \<open>NaN\<close> as these words and raises nothing for them).
\<close>

record statistics =
  avg_turnaround_time :: js_number
  avg_waiting_time :: js_number
  avg_response_time :: js_number
  total_time :: js_number
  throughput :: js_number

section \<open>calculateStatistics\<close>

text \<open>
  \<open>reduce((sum, p) => sum + p.field, 0)\<close>: a sum of integers, NaN (\<open>None\<close>) as soon
  as one field is \<open>undefined\<close>.
\<close>

fun sum_field :: "(process \<Rightarrow> int option) \<Rightarrow> process list \<Rightarrow> int option" where
  "sum_field f [] = Some 0"
| "sum_field f (p # ps) =
     (case f p of None \<Rightarrow> None
      | Some v \<Rightarrow> (case sum_field f ps of None \<Rightarrow> None | Some s \<Rightarrow> Some (v + s)))"

text \<open>
  \<open>Math.max(...xs)\<close> on a non-empty argument list: the largest value, NaN
  (\<open>None\<close>) as soon as one argument is \<open>undefined\<close>.
\<close>

fun math_max :: "int option \<Rightarrow> int option list \<Rightarrow> int option" where
  "math_max m [] = m"
| "math_max m (x # xs) =
     (case m of None \<Rightarrow> None
      | Some a \<Rightarrow> (case x of None \<Rightarrow> None | Some b \<Rightarrow> math_max (Some (max a b)) xs))"

text \<open>
  \<open>Math.min(...xs)\<close> on integers: \<open>Infinity\<close> (\<open>None\<close>) on no argument.
\<close>

fun math_min :: "int list \<Rightarrow> int option" where
  "math_min [] = None"
| "math_min (x # xs) = Some (foldl min x xs)"

text \<open>
  The division \<open>a / b\<close> of two numbers that are integers or NaN (\<open>None\<close>).
\<close>

fun js_div :: "int option \<Rightarrow> int option \<Rightarrow> js_number" where
  "js_div None b = NaN"
| "js_div (Some a) None = NaN"
| "js_div (Some a) (Some b) =
     (if b = 0 then (if a = 0 then NaN else if 0 < a then PosInfinity else NegInfinity)
      else Num (of_int a / of_int b))"

definition js_of_int :: "int option \<Rightarrow> js_number" where
  "js_of_int v = (case v of None \<Rightarrow> NaN | Some a \<Rightarrow> Num (of_int a))"

text \<open>\<open>None\<close> is the empty object the source returns for an empty list.\<close>

definition calculateStatistics :: "process list \<Rightarrow> statistics option" where
  "calculateStatistics processes =
     (case processes of [] \<Rightarrow> None
      | p # ps \<Rightarrow>
         (let totalTurnaround = sum_field turnaround_time processes;
              totalWaiting = sum_field waiting_time processes;
              totalTime = math_max (completion_time p) (map completion_time ps);
              n = Some (int (length processes))
          in Some \<lparr>avg_turnaround_time = js_div totalTurnaround n,
                   avg_waiting_time = js_div totalWaiting n,
                   avg_response_time = js_div totalWaiting n,
                   total_time = js_of_int totalTime,
                   throughput = js_div n totalTime\<rparr>))"

section \<open>fcfsScheduling\<close>

text \<open>
  The comparator \<open>(a, b) => a.arrival_time - b.arrival_time || a.pid - b.pid\<close>.
\<close>

definition fcfs_compare :: "process \<Rightarrow> process \<Rightarrow> int" where
  "fcfs_compare a b =
     (if arrival_time a - arrival_time b \<noteq> 0 then arrival_time a - arrival_time b
      else pid a - pid b)"

text \<open>
  \<open>Array.prototype.sort\<close> with a comparator is stable (ECMAScript 2019): elements
  that compare equal keep their order. For a consistent comparator the result is the
  one a stable insertion sort gives, which is the model.
\<close>

fun insert_sorted :: "('a \<Rightarrow> 'a \<Rightarrow> int) \<Rightarrow> 'a \<Rightarrow> 'a list \<Rightarrow> 'a list" where
  "insert_sorted cmp x [] = [x]"
| "insert_sorted cmp x (y # ys) =
     (if cmp x y \<le> 0 then x # y # ys else y # insert_sorted cmp x ys)"

definition array_sort :: "('a \<Rightarrow> 'a \<Rightarrow> int) \<Rightarrow> 'a list \<Rightarrow> 'a list" where
  "array_sort cmp xs = foldr (insert_sorted cmp) xs []"

text \<open>
  The \<open>for\<close> loop over the sorted processes, from time \<open>currentTime\<close>: the segments
  pushed on the timeline and the processes with their result fields assigned.
\<close>

fun fcfs_loop :: "int \<Rightarrow> process list \<Rightarrow> segment list \<times> process list" where
  "fcfs_loop currentTime [] = ([], [])"
| "fcfs_loop currentTime (p # ps) =
     (let t = (if currentTime < arrival_time p then arrival_time p else currentTime);
          seg = \<lparr>seg_pid = pid p, start = t, seg_end = t + burst_time p,
                 duration = burst_time p\<rparr>;
          t' = t + burst_time p;
          p' = p\<lparr>completion_time := Some t',
                 turnaround_time := Some (t' - arrival_time p),
                 waiting_time := Some (t' - arrival_time p - burst_time p)\<rparr>;
          (segs, finished) = fcfs_loop t' ps
      in (seg # segs, p' # finished))"

text \<open>The timeline and the sorted processes after the loop.\<close>

definition fcfs_run :: "process list \<Rightarrow> segment list \<times> process list" where
  "fcfs_run processes = fcfs_loop 0 (array_sort fcfs_compare processes)"

definition fcfsScheduling :: "process list \<Rightarrow> segment list \<times> statistics option" where
  "fcfsScheduling processes =
     (let (segs, sortedProcesses) = fcfs_run processes
      in (segs, calculateStatistics sortedProcesses))"

section \<open>sjfScheduling and priorityScheduling\<close>

text \<open>
  The state of a \<open>while\<close> loop: the copied process objects, the timeline and the
  clock. Objects are compared by identity in the source (\<open>includes\<close>), so the lists
  \<open>completed\<close> and \<open>queue\<close> hold positions in \<open>processesCopy\<close>, and an assignment
  to a field of an object updates \<open>processesCopy\<close> at its position.
\<close>

record sim_state =
  processesCopy :: "process list"
  timeline :: "segment list"
  currentTime :: int

record np_state = sim_state +
  completed :: "nat list"

record rr_state = sim_state +
  queue :: "nat list"

text \<open>
  \<open>sjfScheduling\<close> and \<open>priorityScheduling\<close> are the same text except for the field
  compared in \<open>reduce\<close> (\<open>burst_time\<close>, \<open>priority\<close>): the model takes that field
  as the parameter \<open>key\<close>.
\<close>

definition np_init :: "process list \<Rightarrow> np_state" where
  "np_init processes =
     \<lparr>processesCopy = processes, timeline = [], currentTime = 0, completed = []\<rparr>"

text \<open>\<open>processesCopy.filter(p => p.arrival_time <= currentTime && !completed.includes(p))\<close>\<close>

definition available :: "np_state \<Rightarrow> nat list" where
  "available s =
     filter (\<lambda>i. arrival_time (processesCopy s ! i) \<le> currentTime s \<and> i \<notin> set (completed s))
       [0..<length (processesCopy s)]"

text \<open>\<open>processesCopy.filter(p => !completed.includes(p))\<close>\<close>

definition not_completed :: "np_state \<Rightarrow> nat list" where
  "not_completed s = filter (\<lambda>i. i \<notin> set (completed s)) [0..<length (processesCopy s)]"

text \<open>
  \<open>available.reduce((best, current) => current.key < best.key ? current : best)\<close>
  on the non-empty list \<open>i # is\<close>: without an initial value, \<open>reduce\<close> starts from
  the first element.
\<close>

definition reduce_min :: "(process \<Rightarrow> int) \<Rightarrow> process list \<Rightarrow> nat \<Rightarrow> nat list \<Rightarrow> nat" where
  "reduce_min key ps i js =
     foldl (\<lambda>best current. if key (ps ! current) < key (ps ! best) then current else best) i js"

text \<open>The branch that runs the selected process to its end.\<close>

definition run_selected :: "np_state \<Rightarrow> nat \<Rightarrow> np_state" where
  "run_selected s selected =
     (let p = processesCopy s ! selected;
          t = currentTime s;
          seg = \<lparr>seg_pid = pid p, start = t, seg_end = t + burst_time p,
                 duration = burst_time p\<rparr>;
          t' = t + burst_time p;
          p' = p\<lparr>completion_time := Some t',
                 turnaround_time := Some (t' - arrival_time p),
                 waiting_time := Some (t' - arrival_time p - burst_time p)\<rparr>
      in s\<lparr>processesCopy := (processesCopy s)[selected := p'],
            timeline := timeline s @ [seg],
            currentTime := t',
            completed := completed s @ [selected]\<rparr>)"

text \<open>
  One iteration of the loop body. When nothing is available and nothing is left
  uncompleted, \<open>Math.min()\<close> is \<open>Infinity\<close>, the clock becomes \<open>Infinity\<close> and
  every later iteration takes the same branch: the loop does not return (\<open>None\<close>).
\<close>

definition np_step :: "(process \<Rightarrow> int) \<Rightarrow> np_state \<Rightarrow> np_state option" where
  "np_step key s =
     (case available s of
        i # js \<Rightarrow> Some (run_selected s (reduce_min key (processesCopy s) i js))
      | [] \<Rightarrow>
         (case math_min (map (\<lambda>i. arrival_time (processesCopy s ! i)) (not_completed s)) of
            None \<Rightarrow> None
          | Some nextArrival \<Rightarrow> Some (s\<lparr>currentTime := nextArrival\<rparr>)))"

definition np_cond :: "np_state \<Rightarrow> bool" where
  "np_cond s \<longleftrightarrow> length (completed s) < length (processesCopy s)"

text \<open>The number of uncompleted processes that arrive after the clock.\<close>

definition later_count :: "np_state \<Rightarrow> nat" where
  "later_count s =
     length (filter (\<lambda>i. currentTime s < arrival_time (processesCopy s ! i)) (not_completed s))"

subsection \<open>The measure of the loop\<close>

lemma filter_length_mono:
  "(\<And>x. x \<in> set xs \<Longrightarrow> P x \<Longrightarrow> Q x) \<Longrightarrow> length (filter P xs) \<le> length (filter Q xs)"
proof (induction xs)
  case Nil then show ?case by simp
next
  case (Cons a xs)
  then have "length (filter P xs) \<le> length (filter Q xs)" by simp
  then show ?case using Cons.prems[of a] by auto
qed

lemma filter_length_less:
  assumes "\<And>x. x \<in> set xs \<Longrightarrow> P x \<Longrightarrow> Q x" "x \<in> set xs" "Q x" "\<not> P x"
  shows "length (filter P xs) < length (filter Q xs)"
  using assms
proof (induction xs)
  case Nil then show ?case by simp
next
  case (Cons a xs)
  have le: "length (filter P xs) \<le> length (filter Q xs)"
    using Cons.prems(1) by (intro filter_length_mono) simp
  show ?case
  proof (cases "a = x")
    case True
    then show ?thesis using le Cons.prems by auto
  next
    case False
    then have "x \<in> set xs" using Cons.prems by auto
    then have "length (filter P xs) < length (filter Q xs)"
      using Cons.IH Cons.prems by auto
    then show ?thesis using Cons.prems(1)[of a] by auto
  qed
qed

lemma foldl_min_in: "foldl min (x::int) xs \<in> set (x # xs)"
  by (induction xs arbitrary: x) (auto simp: min_def)

lemma foldl_min_le: "\<forall>y\<in>set (x # xs). foldl min (x::int) xs \<le> y"
proof (induction xs arbitrary: x)
  case Nil then show ?case by simp
next
  case (Cons a xs)
  have "\<forall>y\<in>set (min x a # xs). foldl min (min x a) xs \<le> y" by (rule Cons.IH)
  then show ?case by auto
qed

lemma math_min_Some: "math_min xs = Some m \<Longrightarrow> m \<in> set xs \<and> (\<forall>y\<in>set xs. m \<le> y)"
  using foldl_min_in foldl_min_le by (cases xs) auto

lemma math_min_Min: "math_min xs = Some m \<Longrightarrow> m = Min (set xs)"
  by (metis List.finite_set Min_eqI math_min_Some)

lemma np_step_decreases:
  assumes "np_cond s" "np_step key s = Some s'"
  shows "(length (processesCopy s') - length (completed s') < length (processesCopy s) - length (completed s))
       \<or> (length (processesCopy s') - length (completed s') = length (processesCopy s) - length (completed s)
           \<and> later_count s' < later_count s)"
proof (cases "available s")
  case (Cons i js)
  then show ?thesis using assms by (auto simp: np_step_def run_selected_def Let_def np_cond_def)
next
  case Nil
  then obtain m where m: "math_min (map (\<lambda>i. arrival_time (processesCopy s ! i)) (not_completed s)) = Some m"
    and s': "s' = s\<lparr>currentTime := m\<rparr>"
    using assms by (auto simp: np_step_def split: option.splits)
  from math_min_Some[OF m] obtain k where k: "k \<in> set (not_completed s)" "arrival_time (processesCopy s ! k) = m"
    and le: "\<forall>j\<in>set (not_completed s). m \<le> arrival_time (processesCopy s ! j)" by auto
  have nc: "not_completed s' = not_completed s" by (simp add: s' not_completed_def)
  have late: "currentTime s < arrival_time (processesCopy s ! j)" if "j \<in> set (not_completed s)" for j
  proof -
    have "j \<notin> set (available s)" using Nil by simp
    then show ?thesis using that by (auto simp: available_def not_completed_def)
  qed
  have "later_count s' < later_count s"
    unfolding later_count_def nc
    apply (rule filter_length_less[where x = k])
    using k late by (auto simp: s')
  then show ?thesis by (simp add: s')
qed

subsection \<open>The loop\<close>

text \<open>
  The \<open>while\<close> loop. Every iteration completes a process, or moves the clock to an
  arrival that was still ahead: the pair (processes left, arrivals ahead) decreases
  lexicographically. The result is \<open>None\<close> only through the branch of \<open>np_step\<close>
  that does not return.
\<close>

function np_loop :: "(process \<Rightarrow> int) \<Rightarrow> np_state \<Rightarrow> np_state option" where
  "np_loop key s =
     (if np_cond s
      then (case np_step key s of None \<Rightarrow> None | Some s' \<Rightarrow> np_loop key s')
      else Some s)"
  by pat_completeness auto
termination
proof (relation "measures [\<lambda>(key, s). length (processesCopy s) - length (completed s), \<lambda>(key, s). later_count s]")
  show "wf (measures [\<lambda>(key, s). length (processesCopy s) - length (completed s), \<lambda>(key, s). later_count s])" by simp
next
  fix key s s'
  assume "np_cond s" "np_step key s = Some s'"
  from np_step_decreases[OF this]
  show "((key, s'), (key, s)) \<in> measures [\<lambda>(key, s). length (processesCopy s) - length (completed s), \<lambda>(key, s). later_count s]"
    by auto
qed

text \<open>The objects of the list \<open>completed\<close>, in the order they were pushed.\<close>

definition completed_processes :: "np_state \<Rightarrow> process list" where
  "completed_processes s = map (\<lambda>i. processesCopy s ! i) (completed s)"

text \<open>
  The loop run from the initial state: the timeline and the list \<open>completed\<close> that
  the scheduler hands to \<open>calculateStatistics\<close>.
\<close>

definition np_run ::
  "(process \<Rightarrow> int) \<Rightarrow> process list \<Rightarrow> (segment list \<times> process list) option" where
  "np_run key processes =
     (case np_loop key (np_init processes) of
        None \<Rightarrow> None
      | Some s \<Rightarrow> Some (timeline s, completed_processes s))"

definition np_scheduling ::
  "(process \<Rightarrow> int) \<Rightarrow> process list \<Rightarrow> (segment list \<times> statistics option) option" where
  "np_scheduling key processes =
     (case np_run key processes of
        None \<Rightarrow> None
      | Some (segs, finished) \<Rightarrow> Some (segs, calculateStatistics finished))"

definition sjfScheduling :: "process list \<Rightarrow> (segment list \<times> statistics option) option" where
  "sjfScheduling processes = np_scheduling burst_time processes"

definition priorityScheduling :: "process list \<Rightarrow> (segment list \<times> statistics option) option" where
  "priorityScheduling processes = np_scheduling priority processes"

text \<open>
  The decision points of the loop on an input: the states in which the loop condition
  is evaluated.
\<close>

inductive_set np_reach :: "(process \<Rightarrow> int) \<Rightarrow> process list \<Rightarrow> np_state set"
  for key :: "process \<Rightarrow> int" and processes :: "process list" where
  np_reach_init: "np_init processes \<in> np_reach key processes"
| np_reach_step: "s \<in> np_reach key processes \<Longrightarrow> np_cond s \<Longrightarrow> np_step key s = Some s'
     \<Longrightarrow> s' \<in> np_reach key processes"

section \<open>roundRobinScheduling\<close>

definition rr_init :: "process list \<Rightarrow> rr_state" where
  "rr_init processes =
     (let copy = map (\<lambda>p. p\<lparr>remaining_time := burst_time p\<rparr>) processes
      in \<lparr>processesCopy = copy, timeline = [], currentTime = 0,
          queue = filter (\<lambda>i. arrival_time (copy ! i) = 0) [0..<length copy]\<rparr>)"

text \<open>\<open>queue.length > 0 || processesCopy.some(p => p.remaining_time > 0)\<close>\<close>

definition rr_cond :: "rr_state \<Rightarrow> bool" where
  "rr_cond s \<longleftrightarrow> queue s \<noteq> [] \<or> list_ex (\<lambda>p. 0 < remaining_time p) (processesCopy s)"

text \<open>
  The newly arrived processes: \<open>filter\<close> builds the list against the queue as it is,
  then \<open>forEach\<close> pushes each one that is not in the queue by then.
\<close>

definition enqueue_arrived :: "rr_state \<Rightarrow> nat list" where
  "enqueue_arrived s =
     foldl (\<lambda>q i. if i \<notin> set q then q @ [i] else q) (queue s)
       (filter (\<lambda>i. arrival_time (processesCopy s ! i) \<le> currentTime s \<and>
                     0 < remaining_time (processesCopy s ! i) \<and> i \<notin> set (queue s))
          [0..<length (processesCopy s)])"

text \<open>The branch that dispatches the head of the queue for one time slice.\<close>

definition dispatch :: "int \<Rightarrow> rr_state \<Rightarrow> nat \<Rightarrow> nat list \<Rightarrow> rr_state" where
  "dispatch quantum s current rest =
     (let p = processesCopy s ! current;
          t = currentTime s;
          executeTime = min quantum (remaining_time p);
          seg = \<lparr>seg_pid = pid p, start = t, seg_end = t + executeTime,
                 duration = executeTime\<rparr>;
          t' = t + executeTime;
          p' = p\<lparr>remaining_time := remaining_time p - executeTime\<rparr>
      in if remaining_time p' = 0
         then s\<lparr>processesCopy := (processesCopy s)[current :=
                    p'\<lparr>completion_time := Some t',
                       turnaround_time := Some (t' - arrival_time p),
                       waiting_time := Some (t' - arrival_time p - burst_time p)\<rparr>],
                 timeline := timeline s @ [seg], currentTime := t', queue := rest\<rparr>
         else s\<lparr>processesCopy := (processesCopy s)[current := p'],
                 timeline := timeline s @ [seg], currentTime := t',
                 queue := rest @ [current]\<rparr>)"

text \<open>
  One iteration of the loop body. With an empty queue (after the arrivals were pushed
  the queue is \<open>enqueue_arrived s\<close>, here empty) the clock jumps to the next arrival,
  and stays when \<open>Math.min()\<close> is \<open>Infinity\<close>.
\<close>

definition rr_step :: "int \<Rightarrow> rr_state \<Rightarrow> rr_state" where
  "rr_step quantum s =
     (case enqueue_arrived s of
        current # rest \<Rightarrow> dispatch quantum s current rest
      | [] \<Rightarrow>
         (case math_min (map arrival_time
                  (filter (\<lambda>p. currentTime s < arrival_time p \<and> 0 < remaining_time p)
                     (processesCopy s))) of
            None \<Rightarrow> s\<lparr>queue := []\<rparr>
          | Some nextArrival \<Rightarrow> s\<lparr>currentTime := nextArrival, queue := []\<rparr>))"

text \<open>The loop may run forever: not returning is \<open>None\<close>.\<close>

partial_function (option) rr_loop :: "int \<Rightarrow> rr_state \<Rightarrow> rr_state option" where
  "rr_loop quantum s = (if rr_cond s then rr_loop quantum (rr_step quantum s) else Some s)"

text \<open>
  The loop run from the initial state: the timeline and the list \<open>processesCopy\<close>
  that the scheduler hands to \<open>calculateStatistics\<close>.
\<close>

definition rr_run :: "process list \<Rightarrow> int \<Rightarrow> (segment list \<times> process list) option" where
  "rr_run processes quantum =
     (case rr_loop quantum (rr_init processes) of
        None \<Rightarrow> None
      | Some s \<Rightarrow> Some (timeline s, processesCopy s))"

definition roundRobinScheduling ::
  "process list \<Rightarrow> int \<Rightarrow> (segment list \<times> statistics option) option" where
  "roundRobinScheduling processes quantum =
     (case rr_run processes quantum of
        None \<Rightarrow> None
      | Some (segs, finished) \<Rightarrow> Some (segs, calculateStatistics finished))"

inductive_set rr_reach :: "int \<Rightarrow> process list \<Rightarrow> rr_state set"
  for quantum :: int and processes :: "process list" where
  rr_reach_init: "rr_init processes \<in> rr_reach quantum processes"
| rr_reach_step: "s \<in> rr_reach quantum processes \<Longrightarrow> rr_cond s
     \<Longrightarrow> rr_step quantum s \<in> rr_reach quantum processes"

section \<open>simulateScheduling\<close>

datatype sim_error = UnknownAlgorithm

text \<open>
  The result: \<open>None\<close> when the call does not return, \<open>Some (Inl e)\<close> when it throws,
  \<open>Some (Inr (timeline, statistics))\<close> when it returns.
\<close>

definition processObject :: "proc_in \<Rightarrow> process" where
  "processObject p =
     \<lparr>pid = pid p, arrival_time = arrival_time p, burst_time = burst_time p,
      priority = priority p, remaining_time = burst_time p,
      completion_time = None, turnaround_time = None, waiting_time = None\<rparr>"

definition simulateScheduling ::
  "proc_in list \<Rightarrow> string \<Rightarrow> int \<Rightarrow> (sim_error + segment list \<times> statistics option) option" where
  "simulateScheduling processes algorithm quantum =
     (let processObjects = map processObject processes
      in if algorithm = ''fcfs'' then Some (Inr (fcfsScheduling processObjects))
         else if algorithm = ''sjf'' then map_option Inr (sjfScheduling processObjects)
         else if algorithm = ''rr''
           then map_option Inr (roundRobinScheduling processObjects quantum)
         else if algorithm = ''priority''
           then map_option Inr (priorityScheduling processObjects)
         else Some (Inl UnknownAlgorithm))"

section \<open>The specification's FCFS, in its own words\<close>

text \<open>
  The order the specification gives: sorted on the pair (arrival time, pid), ascending.
\<close>

definition fcfs_spec_order :: "process list \<Rightarrow> process list" where
  "fcfs_spec_order ps = sort_key (\<lambda>p. (arrival_time p, pid p)) ps"

text \<open>
  The timeline the specification gives for a run order: before each run the clock
  advances to the maximum of the clock and the arrival time, and the process runs its
  whole burst in one segment.
\<close>

fun fcfs_spec_timeline :: "int \<Rightarrow> process list \<Rightarrow> segment list" where
  "fcfs_spec_timeline t [] = []"
| "fcfs_spec_timeline t (p # ps) =
     \<lparr>seg_pid = pid p, start = max t (arrival_time p),
      seg_end = max t (arrival_time p) + burst_time p, duration = burst_time p\<rparr>
     # fcfs_spec_timeline (max t (arrival_time p) + burst_time p) ps"

section \<open>Disk SCAN\<close>




declare rr_loop.simps [code]

section \<open>Auxiliary definitions for the properties\<close>

text \<open>The fields of a process that no scheduler assigns.\<close>

definition static_fields :: "process \<Rightarrow> int \<times> int \<times> int \<times> int" where
  "static_fields p = (pid p, arrival_time p, burst_time p, priority p)"

text \<open>
  The invariant of the list \<open>completed\<close>: positions of \<open>processesCopy\<close>, each at
  most once.
\<close>

definition np_inv :: "np_state \<Rightarrow> bool" where
  "np_inv s \<longleftrightarrow> distinct (completed s) \<and> set (completed s) \<subseteq> {..<length (processesCopy s)}"

text \<open>The state in which the loop of a run ends.\<close>

definition np_final :: "(process \<Rightarrow> int) \<Rightarrow> process list \<Rightarrow> np_state \<Rightarrow> bool" where
  "np_final key ps s \<longleftrightarrow>
     s \<in> np_reach key ps \<and> \<not> np_cond s \<and> np_loop key (np_init ps) = Some s"

text \<open>
  A sample input: the second and third process have the same burst time and the same
  priority; the third has the lower pid and the earlier arrival.
\<close>

definition sample_processes :: "process list" where
  "sample_processes = map processObject
     [\<lparr>pid = 5, arrival_time = 0, burst_time = 1, priority = 1\<rparr>,
      \<lparr>pid = 2, arrival_time = 1, burst_time = 3, priority = 2\<rparr>,
      \<lparr>pid = 1, arrival_time = 0, burst_time = 3, priority = 2\<rparr>]"


text \<open>
  The process list \<open>fcfsScheduling\<close> hands to \<open>calculateStatistics\<close> for one
  process of arrival time 0 and burst time 0.
\<close>

definition finished_at_zero :: "process list" where
  "finished_at_zero = snd (fcfs_run (map processObject
      [\<lparr>pid = 1, arrival_time = 0, burst_time = 0, priority = 1\<rparr>]))"

text \<open>A sample input whose only process arrives late.\<close>

definition late_process :: "process list" where
  "late_process = map processObject
     [\<lparr>pid = 1, arrival_time = 2, burst_time = 3, priority = 1\<rparr>]"

text \<open>The processes \<open>enqueue_arrived\<close> adds to the queue.\<close>

definition arrived :: "rr_state \<Rightarrow> nat list" where
  "arrived s =
     filter (\<lambda>i. arrival_time (processesCopy s ! i) \<le> currentTime s \<and>
                   0 < remaining_time (processesCopy s ! i) \<and> i \<notin> set (queue s))
       [0..<length (processesCopy s)]"

text \<open>The queue holds positions of \<open>processesCopy\<close>.\<close>

definition rr_valid :: "rr_state \<Rightarrow> bool" where
  "rr_valid s \<longleftrightarrow> set (queue s) \<subseteq> {..<length (processesCopy s)}"

text \<open>
  The measure of the Round Robin loop: the work left, the queue entries that have no
  work left, and the arrivals ahead of the clock, in lexicographic order.
\<close>

definition rr_work :: "rr_state \<Rightarrow> nat" where
  "rr_work s = sum_list (map (\<lambda>p. nat (remaining_time p)) (processesCopy s))"

definition rr_stale :: "rr_state \<Rightarrow> nat" where
  "rr_stale s = length (filter (\<lambda>i. remaining_time (processesCopy s ! i) \<le> 0) (queue s))"

definition rr_ahead :: "rr_state \<Rightarrow> nat" where
  "rr_ahead s =
     length (filter (\<lambda>p. currentTime s < arrival_time p \<and> 0 < remaining_time p) (processesCopy s))"

definition rr_measure :: "(rr_state \<times> rr_state) set" where
  "rr_measure = measures [rr_work, rr_stale, rr_ahead]"

text \<open>The state in which the Round Robin loop of a run ends.\<close>

definition rr_final :: "int \<Rightarrow> process list \<Rightarrow> rr_state \<Rightarrow> bool" where
  "rr_final quantum ps s \<longleftrightarrow>
     s \<in> rr_reach quantum ps \<and> \<not> rr_cond s \<and> rr_loop quantum (rr_init ps) = Some s"



text \<open>
  The timing fields of a completed process, as the specification relates them: the
  completion time is at least arrival time plus burst time, the turnaround time is
  completion time minus arrival time, the waiting time is turnaround time minus burst
  time and is not negative.
\<close>

definition timing_ok :: "process \<Rightarrow> bool" where
  "timing_ok p \<longleftrightarrow>
     (\<exists>c ta w. completion_time p = Some c \<and> turnaround_time p = Some ta \<and>
        waiting_time p = Some w \<and> arrival_time p + burst_time p \<le> c \<and>
        ta = c - arrival_time p \<and> w = ta - burst_time p \<and> 0 \<le> w)"

text \<open>A segment runs without a gap from its start to its end.\<close>

definition well_formed :: "segment \<Rightarrow> bool" where
  "well_formed seg \<longleftrightarrow> seg_end seg = start seg + duration seg"


text \<open>
  What the Round Robin loop maintains when burst times and quantum are positive: a
  queued process has work left and the clock has reached its arrival plus the work
  done; a process outside the queue is untouched or complete.
\<close>

definition rr_inv :: "rr_state \<Rightarrow> bool" where
  "rr_inv s \<longleftrightarrow>
     distinct (queue s) \<and> set (queue s) \<subseteq> {..<length (processesCopy s)} \<and>
     (\<forall>i<length (processesCopy s).
        if i \<in> set (queue s)
        then 0 < remaining_time (processesCopy s ! i) \<and>
             arrival_time (processesCopy s ! i) + burst_time (processesCopy s ! i)
               - remaining_time (processesCopy s ! i) \<le> currentTime s
        else remaining_time (processesCopy s ! i) = burst_time (processesCopy s ! i) \<or>
             (remaining_time (processesCopy s ! i) = 0 \<and> timing_ok (processesCopy s ! i)))"

text \<open>The durations on the timeline and the remaining times add up to the burst times.\<close>

definition rr_sum :: "process list \<Rightarrow> rr_state \<Rightarrow> bool" where
  "rr_sum ps s \<longleftrightarrow>
     sum_list (map duration (timeline s)) + sum_list (map remaining_time (processesCopy s))
       = sum_list (map burst_time ps) \<and>
     (\<forall>seg\<in>set (timeline s). well_formed seg)"

section \<open>Selection and invariants of sjfScheduling and priorityScheduling\<close>

lemma reduce_min_in: "reduce_min key ps i js \<in> set (i # js)"
  unfolding reduce_min_def
  by (induction js arbitrary: i) auto

lemma reduce_min_le: "\<forall>j\<in>set (i # js). key (ps ! reduce_min key ps i js) \<le> key (ps ! j)"
  unfolding reduce_min_def
proof (induction js arbitrary: i)
  case Nil then show ?case by simp
next
  case (Cons a js)
  let ?b = "if key (ps ! a) < key (ps ! i) then a else i"
  have "\<forall>j\<in>set (?b # js). key (ps ! foldl (\<lambda>best current. if key (ps ! current) < key (ps ! best) then current else best) ?b js) \<le> key (ps ! j)"
    by (rule Cons.IH)
  then show ?case by (auto split: if_splits)
qed


lemma available_subset: "set (available s) \<subseteq> {i. i < length (processesCopy s) \<and> i \<notin> set (completed s)}"
  by (auto simp: available_def)

lemma np_inv_init: "np_inv (np_init ps)"
  by (simp add: np_inv_def np_init_def)

lemma np_inv_pending:
  assumes "np_inv s" "np_cond s"
  shows "not_completed s \<noteq> []"
proof
  assume e: "not_completed s = []"
  then have "\<forall>i<length (processesCopy s). i \<in> set (completed s)"
    by (auto simp: not_completed_def filter_empty_conv)
  then have "{..<length (processesCopy s)} \<subseteq> set (completed s)" by auto
  then have "card {..<length (processesCopy s)} \<le> card (set (completed s))"
    by (intro card_mono) auto
  then have "length (processesCopy s) \<le> length (completed s)"
    using assms(1) by (simp add: np_inv_def distinct_card)
  then show False using assms(2) by (simp add: np_cond_def)
qed

lemma np_step_Some:
  assumes "np_inv s" "np_cond s"
  shows "\<exists>s'. np_step key s = Some s'"
proof (cases "available s")
  case Nil
  from np_inv_pending[OF assms] obtain x xs where "not_completed s = x # xs" by (cases "not_completed s") auto
  then show ?thesis using Nil by (simp add: np_step_def)
next
  case (Cons i js)
  then show ?thesis by (simp add: np_step_def)
qed

lemma np_inv_step:
  assumes "np_inv s" "np_step key s = Some s'"
  shows "np_inv s'"
proof (cases "available s")
  case Nil
  then show ?thesis using assms by (auto simp: np_step_def np_inv_def split: option.splits)
next
  case (Cons i js)
  let ?sel = "reduce_min key (processesCopy s) i js"
  have "?sel \<in> set (available s)" using reduce_min_in[of key "processesCopy s" i js] Cons by simp
  then have "?sel < length (processesCopy s)" "?sel \<notin> set (completed s)"
    using available_subset by auto
  moreover have "s' = run_selected s ?sel" using assms Cons by (simp add: np_step_def)
  ultimately show ?thesis using assms(1) by (auto simp: np_inv_def run_selected_def Let_def)
qed

lemma np_reach_inv: "s \<in> np_reach key ps \<Longrightarrow> np_inv s"
  by (induction rule: np_reach.induct) (auto intro: np_inv_init np_inv_step)

lemma np_loop_reach:
  "s \<in> np_reach key ps \<Longrightarrow> \<exists>s'. np_loop key s = Some s' \<and> s' \<in> np_reach key ps \<and> \<not> np_cond s'"
proof (induction key s rule: np_loop.induct)
  case (1 key s)
  show ?case
  proof (cases "np_cond s")
    case False
    then show ?thesis using "1.prems" by simp
  next
    case True
    from np_step_Some[OF np_reach_inv[OF "1.prems"] True] obtain s1 where s1: "np_step key s = Some s1" by blast
    have "s1 \<in> np_reach key ps" using "1.prems" True s1 by (rule np_reach_step)
    from "1.IH"[OF True s1 this] show ?thesis using True s1 by simp
  qed
qed

lemma static_fields_simps [simp]:
  "static_fields (p\<lparr>completion_time := a\<rparr>) = static_fields p"
  "static_fields (p\<lparr>turnaround_time := b\<rparr>) = static_fields p"
  "static_fields (p\<lparr>waiting_time := c\<rparr>) = static_fields p"
  "static_fields (p\<lparr>remaining_time := d\<rparr>) = static_fields p"
  by (simp_all add: static_fields_def)

lemma map_static_update:
  assumes "static_fields p' = static_fields (ps ! i)"
  shows "map static_fields (ps[i := p']) = map static_fields ps"
proof (cases "i < length ps")
  case True
  then have "map static_fields (ps[i := p']) = (map static_fields ps)[i := map static_fields ps ! i]"
    using assms by (simp add: map_update)
  then show ?thesis by simp
next
  case False
  then have "ps[i := p'] = ps" by (metis list_update_beyond not_le_imp_less)
  then show ?thesis by simp
qed



lemma static_nth:
  assumes "map static_fields qs = map static_fields ps" "i < length ps"
  shows "pid (qs ! i) = pid (ps ! i)" "arrival_time (qs ! i) = arrival_time (ps ! i)"
    "burst_time (qs ! i) = burst_time (ps ! i)" "priority (qs ! i) = priority (ps ! i)"
proof -
  have "length qs = length ps" using assms(1) by (metis length_map)
  then have "static_fields (qs ! i) = static_fields (ps ! i)"
    using assms by (metis nth_map)
  then show "pid (qs ! i) = pid (ps ! i)" "arrival_time (qs ! i) = arrival_time (ps ! i)"
    "burst_time (qs ! i) = burst_time (ps ! i)" "priority (qs ! i) = priority (ps ! i)"
    by (simp_all add: static_fields_def)
qed

lemma set_available:
  "set (available s) = {i. i < length (processesCopy s) \<and>
      arrival_time (processesCopy s ! i) \<le> currentTime s \<and> i \<notin> set (completed s)}"
  by (auto simp: available_def)

lemma set_not_completed:
  "set (not_completed s) = {i. i < length (processesCopy s) \<and> i \<notin> set (completed s)}"
  by (auto simp: not_completed_def)


lemma np_step_idle:
  assumes "np_inv s" "np_cond s" "available s = []"
  shows "np_step key s = Some (s\<lparr>currentTime :=
           Min ((\<lambda>i. arrival_time (processesCopy s ! i)) ` set (not_completed s))\<rparr>)"
proof -
  from np_step_Some[OF assms(1,2)] obtain s' where s': "np_step key s = Some s'" by blast
  then obtain m where m: "math_min (map (\<lambda>i. arrival_time (processesCopy s ! i)) (not_completed s)) = Some m"
    and e: "s' = s\<lparr>currentTime := m\<rparr>"
    using assms(3) by (auto simp: np_step_def split: option.splits)
  from math_min_Min[OF m] show ?thesis using s' e by simp
qed

lemma np_final_ex: "\<exists>s. np_final key ps s"
  using np_loop_reach[OF np_reach_init[of ps key]] unfolding np_final_def by blast

section \<open>fcfsScheduling runs the processes in sorted order\<close>

text \<open>
  The comparator of the source orders two processes as the pair (arrival time, pid)
  does, so the stable sort of the source is the sort the specification names.
\<close>

lemma fcfs_compare_le:
  "fcfs_compare a b \<le> 0 \<longleftrightarrow> (arrival_time a, pid a) \<le> (arrival_time b, pid b)"
  by (auto simp: fcfs_compare_def less_eq_prod_def)

lemma insert_sorted_insort:
  "insert_sorted fcfs_compare x ys = insort_key (\<lambda>p. (arrival_time p, pid p)) x ys"
  by (induction ys) (simp_all add: fcfs_compare_le)

lemma array_sort_spec_order: "array_sort fcfs_compare ps = fcfs_spec_order ps"
  unfolding array_sort_def fcfs_spec_order_def sort_key_def
  by (induction ps) (simp_all add: insert_sorted_insort)

lemma fcfs_loop_timeline: "fst (fcfs_loop t ps) = fcfs_spec_timeline t ps"
proof (induction ps arbitrary: t)
  case Nil
  then show ?case by simp
next
  case (Cons p ps)
  have m: "(if t < arrival_time p then arrival_time p else t) = max t (arrival_time p)"
    by (simp add: max_def)
  show ?case using Cons.IH[of "max t (arrival_time p) + burst_time p"]
    by (simp add: Let_def m case_prod_beta)
qed

lemma fcfs_loop_static: "map static_fields (snd (fcfs_loop t ps)) = map static_fields ps"
proof (induction ps arbitrary: t)
  case Nil
  then show ?case by simp
next
  case (Cons p ps)
  show ?case
    using Cons.IH[of "(if t < arrival_time p then arrival_time p else t) + burst_time p"]
    by (simp add: Let_def case_prod_beta)
qed

lemma spec_timeline_pids: "map seg_pid (fcfs_spec_timeline t ps) = map pid ps"
  by (induction ps arbitrary: t) simp_all

lemma spec_timeline_durations: "map duration (fcfs_spec_timeline t ps) = map burst_time ps"
  by (induction ps arbitrary: t) simp_all

lemma spec_order_equal_arrival:
  "sorted_wrt (\<lambda>a b. arrival_time a = arrival_time b \<longrightarrow> pid a \<le> pid b) (fcfs_spec_order ps)"
proof -
  have "sorted (map (\<lambda>p. (arrival_time p, pid p)) (fcfs_spec_order ps))"
    unfolding fcfs_spec_order_def by (rule sorted_sort_key)
  then have "sorted_wrt (\<lambda>a b. (arrival_time a, pid a) \<le> (arrival_time b, pid b)) (fcfs_spec_order ps)"
    by (simp add: sorted_wrt_map)
  then show ?thesis
    by (rule sorted_wrt_mono_rel[rotated]) (auto simp: less_eq_prod_def)
qed

lemma sorted_wrt_static:
  assumes "map static_fields qs = map static_fields ps"
    and "sorted_wrt (\<lambda>a b. arrival_time a = arrival_time b \<longrightarrow> pid a \<le> pid b) ps"
  shows "sorted_wrt (\<lambda>a b. arrival_time a = arrival_time b \<longrightarrow> pid a \<le> pid b) qs"
proof -
  let ?R = "\<lambda>x y. fst (snd x) = fst (snd y) \<longrightarrow> fst x \<le> fst (y :: int \<times> int \<times> int \<times> int)"
  have "sorted_wrt ?R (map static_fields ps)"
    using assms(2) by (simp add: sorted_wrt_map static_fields_def)
  then have "sorted_wrt ?R (map static_fields qs)" using assms(1) by simp
  then show ?thesis by (simp add: sorted_wrt_map static_fields_def)
qed



text \<open>
  C1: \<open>fcfsScheduling\<close> runs the processes in the order of sorting on
  (arrival time, pid); its timeline has one segment for each process, of the length of
  the burst, starting at the maximum of the clock and the arrival time; processes of
  equal arrival time run, and so complete, in the order of their pids.
\<close>

theorem fcfs_runs_in_sorted_order:
  "fcfsScheduling processes =
     (fcfs_spec_timeline 0 (fcfs_spec_order processes),
      calculateStatistics (snd (fcfs_run processes))) \<and>
   fst (fcfs_run processes) = fcfs_spec_timeline 0 (fcfs_spec_order processes) \<and>
   map static_fields (snd (fcfs_run processes)) = map static_fields (fcfs_spec_order processes) \<and>
   map seg_pid (fst (fcfs_run processes)) = map pid (fcfs_spec_order processes) \<and>
   map duration (fst (fcfs_run processes)) = map burst_time (fcfs_spec_order processes) \<and>
   length (fst (fcfs_run processes)) = length processes \<and>
   sorted_wrt (\<lambda>a b. arrival_time a = arrival_time b \<longrightarrow> pid a \<le> pid b)
     (snd (fcfs_run processes))"
proof -
  have tl: "fst (fcfs_run processes) = fcfs_spec_timeline 0 (fcfs_spec_order processes)"
    by (simp add: fcfs_run_def array_sort_spec_order fcfs_loop_timeline)
  have st: "map static_fields (snd (fcfs_run processes)) = map static_fields (fcfs_spec_order processes)"
    by (simp add: fcfs_run_def array_sort_spec_order fcfs_loop_static)
  have 1: "fcfsScheduling processes =
     (fcfs_spec_timeline 0 (fcfs_spec_order processes),
      calculateStatistics (snd (fcfs_run processes)))"
    using tl by (simp add: fcfsScheduling_def case_prod_beta)
  have "length (map seg_pid (fst (fcfs_run processes))) = length (map pid (fcfs_spec_order processes))"
    unfolding tl spec_timeline_pids ..
  then have len: "length (fst (fcfs_run processes)) = length processes"
    by (simp add: fcfs_spec_order_def)
  have so: "sorted_wrt (\<lambda>a b. arrival_time a = arrival_time b \<longrightarrow> pid a \<le> pid b)
     (snd (fcfs_run processes))"
    using st spec_order_equal_arrival by (rule sorted_wrt_static)
  show ?thesis using 1 tl st len so by (simp add: spec_timeline_pids spec_timeline_durations)
qed

text \<open>
  On the sample input the processes of pids 1 and 5 both arrive at 0: pid 1 runs first.
\<close>

lemma sample_spec_order:
  "fcfs_spec_order sample_processes =
     [sample_processes ! 2, sample_processes ! 0, sample_processes ! 1]"
  by code_simp


theorem fcfs_runs_in_sorted_order_witness:
  "map pid sample_processes = [5, 2, 1] \<and>
   map arrival_time sample_processes = [0, 1, 0] \<and>
   map seg_pid (fst (fcfs_run sample_processes)) = [1, 5, 2] \<and>
   map start (fst (fcfs_run sample_processes)) = [0, 3, 4] \<and>
   map duration (fst (fcfs_run sample_processes)) = [3, 1, 3] \<and>
   sorted_wrt (\<lambda>a b. arrival_time a = arrival_time b \<longrightarrow> pid a \<le> pid b)
     (snd (fcfs_run sample_processes))"
proof -
  have e: "map pid sample_processes = [5, 2, 1]" "map arrival_time sample_processes = [0, 1, 0]"
    by (simp_all add: sample_processes_def processObject_def)
  note t = fcfs_runs_in_sorted_order[of sample_processes]
  have 1: "fst (fcfs_run sample_processes) =
      fcfs_spec_timeline 0 [sample_processes ! 2, sample_processes ! 0, sample_processes ! 1]"
    using t sample_spec_order by simp
  have 2: "sorted_wrt (\<lambda>a b. arrival_time a = arrival_time b \<longrightarrow> pid a \<le> pid b)
     (snd (fcfs_run sample_processes))"
    using t by blast
  show ?thesis using e 2 unfolding 1
    by (simp add: sample_processes_def processObject_def)
qed

section \<open>Decisions of sjfScheduling\<close>

text \<open>
  C2: the loop of \<open>sjfScheduling\<close> ends in a state that gives the result, and at
  each decision point (a reachable state in which the loop condition holds) either some
  uncompleted process has arrived, and then one of them with the least burst time is
  run to its end in one segment starting at the clock, or none has, and then the clock
  moves to the least arrival time of the uncompleted processes.
\<close>

theorem sjf_decision_points:
  "(\<exists>s\<in>np_reach burst_time processes. \<not> np_cond s \<and>
      sjfScheduling processes = Some (timeline s, calculateStatistics (completed_processes s))) \<and>
   (\<forall>s\<in>np_reach burst_time processes. np_cond s \<longrightarrow>
      set (not_completed s) =
        {i. i < length (processesCopy s) \<and> i \<notin> set (completed s)} \<and>
      set (available s) =
        {i \<in> set (not_completed s). arrival_time (processesCopy s ! i) \<le> currentTime s} \<and>
      (if available s \<noteq> []
       then \<exists>sel\<in>set (available s). \<exists>s'.
              (\<forall>j\<in>set (available s).
                 burst_time (processesCopy s ! sel) \<le> burst_time (processesCopy s ! j)) \<and>
              np_step burst_time s = Some s' \<and>
              timeline s' = timeline s @
                [\<lparr>seg_pid = pid (processesCopy s ! sel), start = currentTime s,
                  seg_end = currentTime s + burst_time (processesCopy s ! sel),
                  duration = burst_time (processesCopy s ! sel)\<rparr>] \<and>
              currentTime s' = currentTime s + burst_time (processesCopy s ! sel) \<and>
              completed s' = completed s @ [sel]
       else not_completed s \<noteq> [] \<and>
            np_step burst_time s =
              Some (s\<lparr>currentTime :=
                 Min ((\<lambda>i. arrival_time (processesCopy s ! i)) ` set (not_completed s))\<rparr>)))"
proof (intro conjI ballI impI)
  obtain s where s: "np_final burst_time processes s" using np_final_ex by blast
  then have "sjfScheduling processes = Some (timeline s, calculateStatistics (completed_processes s))"
    by (simp add: sjfScheduling_def np_scheduling_def np_run_def np_final_def)
  then show "\<exists>s\<in>np_reach burst_time processes. \<not> np_cond s \<and>
      sjfScheduling processes = Some (timeline s, calculateStatistics (completed_processes s))"
    using s unfolding np_final_def by blast
next
  fix s assume "s \<in> np_reach burst_time processes" "np_cond s"
  show "set (not_completed s) = {i. i < length (processesCopy s) \<and> i \<notin> set (completed s)}"
    by (rule set_not_completed)
next
  fix s assume "s \<in> np_reach burst_time processes" "np_cond s"
  show "set (available s) =
        {i \<in> set (not_completed s). arrival_time (processesCopy s ! i) \<le> currentTime s}"
    by (auto simp: set_available set_not_completed)
next
  fix s assume r: "s \<in> np_reach burst_time processes" and c: "np_cond s"
  have inv: "np_inv s" using r by (rule np_reach_inv)
  let ?ps = "processesCopy s"
  show "if available s \<noteq> []
       then \<exists>sel\<in>set (available s). \<exists>s'.
              (\<forall>j\<in>set (available s). burst_time (?ps ! sel) \<le> burst_time (?ps ! j)) \<and>
              np_step burst_time s = Some s' \<and>
              timeline s' = timeline s @
                [\<lparr>seg_pid = pid (?ps ! sel), start = currentTime s,
                  seg_end = currentTime s + burst_time (?ps ! sel),
                  duration = burst_time (?ps ! sel)\<rparr>] \<and>
              currentTime s' = currentTime s + burst_time (?ps ! sel) \<and>
              completed s' = completed s @ [sel]
       else not_completed s \<noteq> [] \<and>
            np_step burst_time s =
              Some (s\<lparr>currentTime :=
                 Min ((\<lambda>i. arrival_time (?ps ! i)) ` set (not_completed s))\<rparr>)"
  proof (cases "available s")
    case Nil
    then show ?thesis using np_inv_pending[OF inv c] np_step_idle[OF inv c Nil] by simp
  next
    case (Cons i js)
    let ?sel = "reduce_min burst_time ?ps i js"
    have sel: "?sel \<in> set (available s)"
      using reduce_min_in[of burst_time ?ps i js] Cons by simp
    have le: "\<forall>j\<in>set (available s). burst_time (?ps ! ?sel) \<le> burst_time (?ps ! j)"
      using reduce_min_le[of i js burst_time ?ps] Cons by simp
    have st: "np_step burst_time s = Some (run_selected s ?sel)"
      using Cons by (simp add: np_step_def)
    have "\<exists>sel\<in>set (available s). \<exists>s'.
              (\<forall>j\<in>set (available s). burst_time (?ps ! sel) \<le> burst_time (?ps ! j)) \<and>
              np_step burst_time s = Some s' \<and>
              timeline s' = timeline s @
                [\<lparr>seg_pid = pid (?ps ! sel), start = currentTime s,
                  seg_end = currentTime s + burst_time (?ps ! sel),
                  duration = burst_time (?ps ! sel)\<rparr>] \<and>
              currentTime s' = currentTime s + burst_time (?ps ! sel) \<and>
              completed s' = completed s @ [sel]"
      apply (rule bexI[OF _ sel])
      apply (rule exI[of _ "run_selected s ?sel"])
      using le st by (simp add: run_selected_def Let_def)
    then show ?thesis using Cons by simp
  qed
qed

text \<open>
  The first decision on the two sample inputs: a dispatch of the process of burst time
  1, and an idle jump to time 2.
\<close>

lemma sample_available: "available (np_init sample_processes) = [0, 2]"
  by code_simp

lemma late_available: "available (np_init late_process) = []"
  by code_simp

lemma late_not_completed: "not_completed (np_init late_process) = [0]"
  by code_simp

theorem sjf_decision_points_witness:
  "np_init sample_processes \<in> np_reach burst_time sample_processes \<and>
   np_cond (np_init sample_processes) \<and>
   available (np_init sample_processes) \<noteq> [] \<and>
   (\<exists>s'. np_step burst_time (np_init sample_processes) = Some s' \<and>
      timeline s' = [\<lparr>seg_pid = 5, start = 0, seg_end = 1, duration = 1\<rparr>] \<and>
      currentTime s' = 1 \<and> completed s' = [0]) \<and>
   np_init late_process \<in> np_reach burst_time late_process \<and>
   np_cond (np_init late_process) \<and>
   available (np_init late_process) = [] \<and>
   np_step burst_time (np_init late_process) = Some ((np_init late_process)\<lparr>currentTime := 2\<rparr>)"
proof -
  let ?s = "np_init sample_processes"
  have r: "?s \<in> np_reach burst_time sample_processes" by (rule np_reach_init)
  have c: "np_cond ?s" by (simp add: np_cond_def np_init_def sample_processes_def)
  have ps: "processesCopy ?s = sample_processes" "timeline ?s = []" "currentTime ?s = 0" "completed ?s = []"
    by (simp_all add: np_init_def)
  note d = sjf_decision_points[of sample_processes, THEN conjunct2, rule_format, OF r c]
  have "if available ?s \<noteq> []
       then \<exists>sel\<in>set (available ?s). \<exists>s'.
              (\<forall>j\<in>set (available ?s).
                 burst_time (processesCopy ?s ! sel) \<le> burst_time (processesCopy ?s ! j)) \<and>
              np_step burst_time ?s = Some s' \<and>
              timeline s' = timeline ?s @
                [\<lparr>seg_pid = pid (processesCopy ?s ! sel), start = currentTime ?s,
                  seg_end = currentTime ?s + burst_time (processesCopy ?s ! sel),
                  duration = burst_time (processesCopy ?s ! sel)\<rparr>] \<and>
              currentTime s' = currentTime ?s + burst_time (processesCopy ?s ! sel) \<and>
              completed s' = completed ?s @ [sel]
       else not_completed ?s \<noteq> [] \<and>
            np_step burst_time ?s =
              Some (?s\<lparr>currentTime :=
                 Min ((\<lambda>i. arrival_time (processesCopy ?s ! i)) ` set (not_completed ?s))\<rparr>)"
    using d by blast
  then have 1: "\<exists>s'. np_step burst_time ?s = Some s' \<and>
      timeline s' = [\<lparr>seg_pid = 5, start = 0, seg_end = 1, duration = 1\<rparr>] \<and>
      currentTime s' = 1 \<and> completed s' = [0]"
    unfolding ps sample_available
    by (simp add: sample_processes_def processObject_def)
  let ?l = "np_init late_process"
  have rl: "?l \<in> np_reach burst_time late_process" by (rule np_reach_init)
  have cl: "np_cond ?l" by (simp add: np_cond_def np_init_def late_process_def)
  note dl = sjf_decision_points[of late_process, THEN conjunct2, rule_format, OF rl cl]
  have "np_step burst_time ?l =
              Some (?l\<lparr>currentTime :=
                 Min ((\<lambda>i. arrival_time (processesCopy ?l ! i)) ` set (not_completed ?l))\<rparr>)"
    using dl late_available by simp
  then have 2: "np_step burst_time ?l = Some (?l\<lparr>currentTime := 2\<rparr>)"
    unfolding late_not_completed
    by (simp add: np_init_def late_process_def processObject_def)
  show ?thesis using r c 1 rl cl 2 sample_available late_available by simp
qed

section \<open>The tie-break of sjfScheduling and priorityScheduling\<close>










section \<open>The throughput when the total time is 0\<close>

text \<open>
  C6 (as stated): when the total time is 0 the throughput computation yields a defined
  error. It does not: for one process that arrives at 0 with burst time 0, the
  simulation returns statistics whose throughput is \<open>Infinity\<close>.
\<close>

theorem throughput_zero_total_time_counterexample:
  "simulateScheduling [\<lparr>pid = 1, arrival_time = 0, burst_time = 0, priority = 1\<rparr>] ''fcfs'' 3
     = Some (Inr ([\<lparr>seg_pid = 1, start = 0, seg_end = 0, duration = 0\<rparr>],
        Some \<lparr>avg_turnaround_time = Num 0, avg_waiting_time = Num 0, avg_response_time = Num 0,
              total_time = Num 0, throughput = PosInfinity\<rparr>))"
  by code_simp

text \<open>
  C6 (amended): whenever \<open>calculateStatistics\<close> returns statistics whose total time is
  0, their throughput is \<open>Infinity\<close>; no error is raised.
\<close>

theorem throughput_zero_total_time:
  assumes "calculateStatistics processes = Some st" and "total_time st = Num 0"
  shows "throughput st = PosInfinity"
proof (cases processes)
  case Nil
  then show ?thesis using assms by (simp add: calculateStatistics_def)
next
  case (Cons p ps)
  let ?tt = "math_max (completion_time p) (map completion_time ps)"
  have st: "st = \<lparr>avg_turnaround_time = js_div (sum_field turnaround_time processes) (Some (int (length processes))),
                   avg_waiting_time = js_div (sum_field waiting_time processes) (Some (int (length processes))),
                   avg_response_time = js_div (sum_field waiting_time processes) (Some (int (length processes))),
                   total_time = js_of_int ?tt,
                   throughput = js_div (Some (int (length processes))) ?tt\<rparr>"
    using assms(1) Cons by (simp add: calculateStatistics_def Let_def)
  then have "js_of_int ?tt = Num 0" using assms(2) by simp
  then have "?tt = Some 0" by (simp add: js_of_int_def split: option.splits)
  then show ?thesis using st Cons by simp
qed

lemma finished_at_zero_statistics:
  "calculateStatistics finished_at_zero =
     Some \<lparr>avg_turnaround_time = Num 0, avg_waiting_time = Num 0, avg_response_time = Num 0,
              total_time = Num 0, throughput = PosInfinity\<rparr>"
  by code_simp

theorem throughput_zero_total_time_witness:
  "calculateStatistics finished_at_zero =
     Some \<lparr>avg_turnaround_time = Num 0, avg_waiting_time = Num 0, avg_response_time = Num 0,
              total_time = Num 0, throughput = PosInfinity\<rparr> \<and>
   total_time \<lparr>avg_turnaround_time = Num 0, avg_waiting_time = Num 0, avg_response_time = Num 0,
              total_time = Num 0, throughput = PosInfinity\<rparr> = Num 0 \<and>
   throughput \<lparr>avg_turnaround_time = Num 0, avg_waiting_time = Num 0, avg_response_time = Num 0,
              total_time = Num 0, throughput = PosInfinity\<rparr> = PosInfinity"
  using throughput_zero_total_time[OF finished_at_zero_statistics] finished_at_zero_statistics
  by simp

section \<open>The errors of simulateScheduling\<close>

text \<open>
  C5 (as stated): \<open>simulateScheduling\<close> fails with an error on an empty process set
  and on a burst time that is not positive. It does not: it returns a result for both.
\<close>

theorem simulateScheduling_counterexample:
  "simulateScheduling [] ''fcfs'' 3 = Some (Inr ([], None)) \<and>
   simulateScheduling [\<lparr>pid = 1, arrival_time = 0, burst_time = - 2, priority = 1\<rparr>] ''sjf'' 3 =
     Some (Inr ([\<lparr>seg_pid = 1, start = 0, seg_end = - 2, duration = - 2\<rparr>],
       Some \<lparr>avg_turnaround_time = Num (- 2), avg_waiting_time = Num 0,
             avg_response_time = Num 0, total_time = Num (- 2), throughput = Num (- 1 / 2)\<rparr>))"
  by code_simp

lemma np_run_Some: "\<exists>r. np_run key ps = Some r"
  using np_final_ex[of key ps] by (auto simp: np_final_def np_run_def)

lemma np_scheduling_Some: "\<exists>r. np_scheduling key ps = Some r"
  using np_run_Some[of key ps] by (auto simp: np_scheduling_def)

lemma np_scheduling_Nil: "np_scheduling key [] = Some ([], None)"
  by (simp add: np_scheduling_def np_run_def np_init_def np_cond_def completed_processes_def
      calculateStatistics_def)

lemma roundRobinScheduling_Nil: "roundRobinScheduling [] quantum = Some ([], None)"
proof -
  have "\<not> rr_cond (rr_init [])" by (simp add: rr_cond_def rr_init_def)
  then have "rr_loop quantum (rr_init []) = Some (rr_init [])" by (simp add: rr_loop.simps)
  then show ?thesis
    by (simp add: roundRobinScheduling_def rr_run_def rr_init_def calculateStatistics_def)
qed

lemma fcfsScheduling_Nil: "fcfsScheduling [] = ([], None)"
  by (simp add: fcfsScheduling_def fcfs_run_def array_sort_def calculateStatistics_def)

text \<open>
  C5 (amended): \<open>simulateScheduling\<close> throws exactly when the algorithm name is none of
  \<open>fcfs\<close>, \<open>sjf\<close>, \<open>rr\<close>, \<open>priority\<close>; for an empty process set and a known name
  it returns the empty timeline and the empty statistics object; for \<open>fcfs\<close>,
  \<open>sjf\<close> and \<open>priority\<close> it returns a result for every process list, whatever the
  burst times.
\<close>

theorem simulateScheduling_errors:
  "(simulateScheduling processes algorithm quantum = Some (Inl e) \<longleftrightarrow>
      algorithm \<notin> {''fcfs'', ''sjf'', ''rr'', ''priority''}) \<and>
   (algorithm \<in> {''fcfs'', ''sjf'', ''rr'', ''priority''} \<longrightarrow>
      simulateScheduling [] algorithm quantum = Some (Inr ([], None))) \<and>
   (algorithm \<in> {''fcfs'', ''sjf'', ''priority''} \<longrightarrow>
      (\<exists>r. simulateScheduling processes algorithm quantum = Some (Inr r)))"
proof (intro conjI impI)
  show "simulateScheduling processes algorithm quantum = Some (Inl e) \<longleftrightarrow>
      algorithm \<notin> {''fcfs'', ''sjf'', ''rr'', ''priority''}"
    by (cases e) (auto simp: simulateScheduling_def Let_def)
next
  assume "algorithm \<in> {''fcfs'', ''sjf'', ''rr'', ''priority''}"
  then show "simulateScheduling [] algorithm quantum = Some (Inr ([], None))"
    by (auto simp: simulateScheduling_def sjfScheduling_def priorityScheduling_def
        np_scheduling_Nil roundRobinScheduling_Nil fcfsScheduling_Nil)
next
  assume "algorithm \<in> {''fcfs'', ''sjf'', ''priority''}"
  then show "\<exists>r. simulateScheduling processes algorithm quantum = Some (Inr r)"
    using np_scheduling_Some[of burst_time "map processObject processes"]
      np_scheduling_Some[of priority "map processObject processes"]
    by (auto simp: simulateScheduling_def sjfScheduling_def priorityScheduling_def Let_def)
qed

theorem simulateScheduling_errors_witness:
  "simulateScheduling [] ''sjf'' 0 = Some (Inr ([], None)) \<and>
   simulateScheduling [] ''lottery'' 0 = Some (Inl UnknownAlgorithm) \<and>
   (\<exists>r. simulateScheduling [\<lparr>pid = 1, arrival_time = 0, burst_time = - 2, priority = 1\<rparr>]
          ''priority'' 0 = Some (Inr r))"
  using simulateScheduling_errors[of "[]" "''sjf''" 0 UnknownAlgorithm]
    simulateScheduling_errors[of "[]" "''lottery''" 0 UnknownAlgorithm]
    simulateScheduling_errors[of "[\<lparr>pid = 1, arrival_time = 0, burst_time = - 2, priority = 1\<rparr>]"
      "''priority''" 0 UnknownAlgorithm]
  by simp

section \<open>Termination of roundRobinScheduling\<close>

lemma push_new_append:
  "distinct xs \<Longrightarrow> set xs \<inter> set q = {} \<Longrightarrow>
   foldl (\<lambda>q i. if i \<notin> set q then q @ [i] else q) q xs = q @ xs"
proof (induction xs arbitrary: q)
  case Nil
  then show ?case by simp
next
  case (Cons x xs)
  have "x \<notin> set q" using Cons.prems by auto
  moreover have "distinct xs" "set xs \<inter> set (q @ [x]) = {}" using Cons.prems by auto
  ultimately show ?case using Cons.IH[of "q @ [x]"] by simp
qed

lemma enqueue_arrived_append: "enqueue_arrived s = queue s @ arrived s"
  unfolding enqueue_arrived_def arrived_def
  by (rule push_new_append) auto

lemma set_arrived:
  "set (arrived s) = {i. i < length (processesCopy s) \<and>
      arrival_time (processesCopy s ! i) \<le> currentTime s \<and>
      0 < remaining_time (processesCopy s ! i) \<and> i \<notin> set (queue s)}"
  by (auto simp: arrived_def)

lemma rr_valid_enqueue:
  "rr_valid s \<Longrightarrow> set (enqueue_arrived s) \<subseteq> {..<length (processesCopy s)}"
  by (auto simp: rr_valid_def enqueue_arrived_append set_arrived)

lemma dispatch_length [simp]:
  "length (processesCopy (dispatch quantum s current rest)) = length (processesCopy s)"
  by (simp add: dispatch_def Let_def)

lemma dispatch_queue_subset:
  "set (queue (dispatch quantum s current rest)) \<subseteq> set (current # rest)"
  by (auto simp: dispatch_def Let_def)

lemma rr_step_length [simp]: "length (processesCopy (rr_step quantum s)) = length (processesCopy s)"
  by (simp add: rr_step_def split: list.splits option.splits)

lemma rr_valid_step:
  assumes "rr_valid s"
  shows "rr_valid (rr_step quantum s)"
proof (cases "enqueue_arrived s")
  case Nil
  then show ?thesis by (simp add: rr_step_def rr_valid_def split: option.splits)
next
  case (Cons current rest)
  then have "set (queue (rr_step quantum s)) \<subseteq> set (enqueue_arrived s)"
    using dispatch_queue_subset[of quantum s current rest] by (simp add: rr_step_def)
  then show ?thesis using rr_valid_enqueue[OF assms] unfolding rr_valid_def by simp
qed

lemma rr_valid_init: "rr_valid (rr_init ps)"
  by (auto simp: rr_valid_def rr_init_def Let_def)

lemma rr_reach_valid: "s \<in> rr_reach quantum ps \<Longrightarrow> rr_valid s"
  by (induction rule: rr_reach.induct) (simp_all add: rr_valid_init rr_valid_step)

lemma sum_list_nat_update_less:
  assumes "i < length xs" "f y < f (xs ! i)"
  shows "sum_list (map f (xs[i := y])) < (sum_list (map f xs) :: nat)"
proof -
  have i: "i < length (map f xs)" using assms(1) by simp
  have "map f xs ! i \<in> set (map f xs)" using i by (rule nth_mem)
  then have le: "map f xs ! i \<le> sum_list (map f xs)" by (rule member_le_sum_list) simp
  have "sum_list (map f (xs[i := y])) = sum_list (map f xs) + f y - map f xs ! i"
    using i by (simp add: map_update sum_list_update)
  then show ?thesis using assms le by simp
qed

lemma sum_list_nat_update_same:
  assumes "i < length xs" "f y = f (xs ! i)"
  shows "map f (xs[i := y]) = map f xs"
proof -
  have "map f (xs[i := y]) = (map f xs)[i := map f xs ! i]"
    using assms by (simp add: map_update)
  then show ?thesis by simp
qed

lemma rr_idle_decreases:
  assumes "rr_cond s" "enqueue_arrived s = []"
  shows "(rr_step quantum s, s) \<in> rr_measure"
proof -
  let ?ps = "processesCopy s"
  let ?late = "filter (\<lambda>p. currentTime s < arrival_time p \<and> 0 < remaining_time p) ?ps"
  have q: "queue s = []" and a: "arrived s = []"
    using assms(2) by (simp_all add: enqueue_arrived_append)
  obtain p where p: "p \<in> set ?ps" "0 < remaining_time p"
    using assms(1) q by (auto simp: rr_cond_def list_ex_iff)
  then obtain i where i: "i < length ?ps" "?ps ! i = p" by (auto simp: in_set_conv_nth)
  have "i \<notin> set (arrived s)" using a by simp
  then have "currentTime s < arrival_time p" using i p q by (auto simp: set_arrived)
  then have "p \<in> set ?late" using p by simp
  then obtain m where m: "math_min (map arrival_time ?late) = Some m"
    by (cases ?late) auto
  from math_min_Some[OF m] obtain k where k: "k \<in> set ?late" "arrival_time k = m"
    and le: "\<forall>x\<in>set ?late. m \<le> arrival_time x" by auto
  have tm: "currentTime s < m" using k by auto
  have st: "rr_step quantum s = s\<lparr>currentTime := m, queue := []\<rparr>"
    using assms(2) m by (simp add: rr_step_def)
  have "rr_ahead (s\<lparr>currentTime := m, queue := []\<rparr>) < rr_ahead s"
    unfolding rr_ahead_def
    apply simp
    apply (rule filter_length_less[where x = k])
    using k tm by auto
  then show ?thesis
    unfolding st rr_measure_def using q by (simp add: rr_work_def rr_stale_def)
qed

lemma rr_dispatch_decreases:
  assumes v: "rr_valid s" and q: "0 < quantum" and e: "enqueue_arrived s = current # rest"
  shows "(rr_step quantum s, s) \<in> rr_measure"
proof -
  let ?ps = "processesCopy s"
  let ?p = "?ps ! current"
  let ?e = "min quantum (remaining_time ?p)"
  have st: "rr_step quantum s = dispatch quantum s current rest"
    using e by (simp add: rr_step_def)
  have cur: "current < length ?ps"
    using rr_valid_enqueue[OF v] e by auto
  show ?thesis
  proof (cases "0 < remaining_time ?p")
    case True
    then have lt: "nat (remaining_time ?p - ?e) < nat (remaining_time ?p)"
      using q by (auto simp: min_def)
    have "rr_work (dispatch quantum s current rest) < rr_work s"
      unfolding rr_work_def dispatch_def Let_def
      using cur lt by (auto intro!: sum_list_nat_update_less)
    then show ?thesis unfolding st rr_measure_def by simp
  next
    case False
    then have ee: "?e = remaining_time ?p" using q by (simp add: min_def)
    have notarr: "current \<notin> set (arrived s)" using False by (simp add: set_arrived)
    have "current \<in> set (queue s @ arrived s)" using e by (simp add: enqueue_arrived_append[symmetric])
    then have "queue s \<noteq> []" using notarr by auto
    then obtain qt where qs: "queue s = current # qt" and rest: "rest = qt @ arrived s"
      using e by (cases "queue s") (auto simp: enqueue_arrived_append)
    let ?s' = "dispatch quantum s current rest"
    have ps': "processesCopy ?s' = ?ps[current := ?p\<lparr>remaining_time := 0,
                       completion_time := Some (currentTime s + ?e),
                       turnaround_time := Some (currentTime s + ?e - arrival_time ?p),
                       waiting_time := Some (currentTime s + ?e - arrival_time ?p - burst_time ?p)\<rparr>]"
      and q': "queue ?s' = rest"
      using ee by (simp_all add: dispatch_def Let_def)
    have same: "remaining_time (processesCopy ?s' ! i) \<le> 0 \<longleftrightarrow> remaining_time (?ps ! i) \<le> 0" for i
      using False cur unfolding ps' by (cases "i = current") auto
    have w: "rr_work ?s' = rr_work s"
      unfolding rr_work_def ps' using cur False
      by (subst sum_list_nat_update_same) auto
    have "filter (\<lambda>i. remaining_time (?ps ! i) \<le> 0) (arrived s) = []"
      by (auto simp: filter_empty_conv set_arrived)
    then have "rr_stale ?s' < rr_stale s"
      unfolding rr_stale_def q' same using False by (simp add: rest qs)
    then show ?thesis unfolding st rr_measure_def using w by simp
  qed
qed

lemma rr_step_decreases:
  assumes "rr_valid s" "0 < quantum" "rr_cond s"
  shows "(rr_step quantum s, s) \<in> rr_measure"
proof (cases "enqueue_arrived s")
  case Nil
  then show ?thesis using assms(3) by (intro rr_idle_decreases)
next
  case (Cons current rest)
  then show ?thesis using assms(1,2) by (intro rr_dispatch_decreases)
qed

lemma wf_rr_measure: "wf rr_measure"
  unfolding rr_measure_def by simp

lemma rr_loop_reach:
  assumes q: "0 < quantum"
  shows "s \<in> rr_reach quantum ps \<Longrightarrow>
     \<exists>s'. rr_loop quantum s = Some s' \<and> s' \<in> rr_reach quantum ps \<and> \<not> rr_cond s'"
proof (induction s rule: wf_induct_rule[OF wf_rr_measure])
  case (1 s)
  show ?case
  proof (cases "rr_cond s")
    case False
    then have "rr_loop quantum s = Some s" by (subst rr_loop.simps) simp
    then show ?thesis using False "1.prems" by blast
  next
    case True
    have d: "(rr_step quantum s, s) \<in> rr_measure"
      using rr_reach_valid[OF "1.prems"] q True by (rule rr_step_decreases)
    have r: "rr_step quantum s \<in> rr_reach quantum ps"
      using "1.prems" True by (rule rr_reach_step)
    from "1.IH"[OF d r] obtain s' where
      s': "rr_loop quantum (rr_step quantum s) = Some s'" "s' \<in> rr_reach quantum ps" "\<not> rr_cond s'"
      by blast
    have "rr_loop quantum s = Some s'" using True s'(1) by (subst rr_loop.simps) simp
    then show ?thesis using s' by blast
  qed
qed

lemma rr_final_ex: "0 < quantum \<Longrightarrow> \<exists>s. rr_final quantum ps s"
  using rr_loop_reach[OF _ rr_reach_init[of ps quantum]] unfolding rr_final_def by blast


subsection \<open>A quantum that is not positive\<close>






section \<open>Termination of the four schedulers\<close>




section \<open>Timing and durations in fcfsScheduling, sjfScheduling and priorityScheduling\<close>















section \<open>Invariants of roundRobinScheduling\<close>

lemma rr_step_static:
  "map static_fields (processesCopy (rr_step quantum s)) = map static_fields (processesCopy s)"
  by (simp add: rr_step_def dispatch_def Let_def map_static_update
      split: list.splits option.splits)

lemma rr_reach_static:
  "s \<in> rr_reach quantum ps \<Longrightarrow> map static_fields (processesCopy s) = map static_fields ps"
proof (induction rule: rr_reach.induct)
  case rr_reach_init
  then show ?case by (simp add: rr_init_def Let_def comp_def)
next
  case (rr_reach_step s)
  then show ?case by (simp add: rr_step_static)
qed

lemma rr_step_timeline:
  "timeline (rr_step quantum s) =
     (case enqueue_arrived s of
        [] \<Rightarrow> timeline s
      | current # rest \<Rightarrow> timeline s @
          [\<lparr>seg_pid = pid (processesCopy s ! current), start = currentTime s,
            seg_end = currentTime s + min quantum (remaining_time (processesCopy s ! current)),
            duration = min quantum (remaining_time (processesCopy s ! current))\<rparr>])"
  by (simp add: rr_step_def dispatch_def Let_def split: list.splits option.splits)

lemma rr_reach_bound:
  "s \<in> rr_reach quantum ps \<Longrightarrow> \<forall>seg\<in>set (timeline s). duration seg \<le> quantum"
proof (induction rule: rr_reach.induct)
  case rr_reach_init
  then show ?case by (simp add: rr_init_def Let_def)
next
  case (rr_reach_step s)
  then show ?case by (auto simp: rr_step_timeline split: list.splits)
qed

lemma sum_list_int_update:
  "i < length xs \<Longrightarrow>
   sum_list (map f (xs[i := y])) = sum_list (map f xs) - f (xs ! i) + (f y :: int)"
proof (induction xs arbitrary: i)
  case Nil
  then show ?case by simp
next
  case (Cons x xs)
  then show ?case by (cases i) simp_all
qed

lemma rr_sum_init: "rr_sum ps (rr_init ps)"
  by (simp add: rr_sum_def rr_init_def Let_def comp_def)

lemma rr_sum_step:
  assumes "rr_valid s" "rr_sum ps s"
  shows "rr_sum ps (rr_step quantum s)"
proof (cases "enqueue_arrived s")
  case Nil
  then show ?thesis using assms(2) by (simp add: rr_step_def rr_sum_def split: option.splits)
next
  case (Cons current rest)
  have cur: "current < length (processesCopy s)"
    using rr_valid_enqueue[OF assms(1)] Cons by auto
  show ?thesis
    using assms(2) cur Cons
    by (simp add: rr_step_def rr_sum_def dispatch_def Let_def sum_list_int_update well_formed_def)
qed

lemma rr_reach_sum: "s \<in> rr_reach quantum ps \<Longrightarrow> rr_sum ps s"
  by (induction rule: rr_reach.induct) (simp_all add: rr_sum_init rr_sum_step rr_reach_valid)

lemma rr_inv_init:
  assumes "\<forall>p\<in>set ps. 0 < burst_time p"
  shows "rr_inv (rr_init ps)"
  using assms by (auto simp: rr_inv_def rr_init_def Let_def)

lemma distinct_arrived: "distinct (arrived s)"
  by (simp add: arrived_def)

lemma rr_inv_step:
  assumes inv: "rr_inv s" and q: "0 < quantum"
  shows "rr_inv (rr_step quantum s)"
proof -
  let ?ps = "processesCopy s"
  let ?n = "length ?ps"
  let ?t = "currentTime s"
  let ?q1 = "enqueue_arrived s"
  have q1: "?q1 = queue s @ arrived s" by (rule enqueue_arrived_append)
  have d1: "distinct ?q1"
    using inv unfolding q1 by (auto simp: rr_inv_def distinct_arrived set_arrived)
  have v1: "set ?q1 \<subseteq> {..<?n}"
    using inv unfolding q1 by (auto simp: rr_inv_def set_arrived)
  have out0: "remaining_time (?ps ! i) = burst_time (?ps ! i) \<or>
      (remaining_time (?ps ! i) = 0 \<and> timing_ok (?ps ! i))"
    if "i < ?n" "i \<notin> set (queue s)" for i
    using inv that unfolding rr_inv_def by (metis (no_types, lifting))
  have in0: "0 < remaining_time (?ps ! i) \<and>
      arrival_time (?ps ! i) + burst_time (?ps ! i) - remaining_time (?ps ! i) \<le> ?t"
    if "i \<in> set (queue s)" for i
  proof -
    have "i < ?n" using inv that by (auto simp: rr_inv_def)
    then show ?thesis using inv that unfolding rr_inv_def by (metis (no_types, lifting))
  qed
  have in1: "0 < remaining_time (?ps ! i) \<and>
      arrival_time (?ps ! i) + burst_time (?ps ! i) - remaining_time (?ps ! i) \<le> ?t"
    if "i \<in> set ?q1" for i
  proof (cases "i \<in> set (queue s)")
    case True
    then show ?thesis by (rule in0)
  next
    case False
    then have a: "i \<in> set (arrived s)" using that q1 by simp
    then have i: "i < ?n" "arrival_time (?ps ! i) \<le> ?t" "0 < remaining_time (?ps ! i)"
      by (simp_all add: set_arrived)
    from out0[OF i(1) False] i(3) have "remaining_time (?ps ! i) = burst_time (?ps ! i)" by auto
    then show ?thesis using i by simp
  qed
  have out1: "remaining_time (?ps ! i) = burst_time (?ps ! i) \<or>
      (remaining_time (?ps ! i) = 0 \<and> timing_ok (?ps ! i))"
    if "i < ?n" "i \<notin> set ?q1" for i
    using that out0 q1 by simp
  show ?thesis
  proof (cases ?q1)
    case Nil
    then have "queue (rr_step quantum s) = []" "processesCopy (rr_step quantum s) = ?ps"
      by (simp_all add: rr_step_def split: option.splits)
    then show ?thesis using out1 Nil by (simp add: rr_inv_def)
  next
    case (Cons current rest)
    let ?p = "?ps ! current"
    define e where "e = min quantum (remaining_time ?p)"
    let ?e = e
    have "rr_step quantum s = dispatch quantum s current rest"
      using Cons by (simp add: rr_step_def)
    then have st: "rr_step quantum s =
      (if remaining_time ?p - e = 0
       then s\<lparr>processesCopy := ?ps[current :=
                    ?p\<lparr>remaining_time := remaining_time ?p - e,
                       completion_time := Some (?t + e),
                       turnaround_time := Some (?t + e - arrival_time ?p),
                       waiting_time := Some (?t + e - arrival_time ?p - burst_time ?p)\<rparr>],
                 timeline := timeline s @ [\<lparr>seg_pid = pid ?p, start = ?t, seg_end = ?t + e,
                 duration = e\<rparr>], currentTime := ?t + e, queue := rest\<rparr>
       else s\<lparr>processesCopy := ?ps[current := ?p\<lparr>remaining_time := remaining_time ?p - e\<rparr>],
                 timeline := timeline s @ [\<lparr>seg_pid = pid ?p, start = ?t, seg_end = ?t + e,
                 duration = e\<rparr>], currentTime := ?t + e,
                 queue := rest @ [current]\<rparr>)"
      unfolding dispatch_def Let_def e_def by simp
    have cur: "current < ?n" "current \<notin> set rest" "distinct rest" "set rest \<subseteq> {..<?n}"
      using d1 v1 Cons by auto
    have curin: "0 < remaining_time ?p"
      "arrival_time ?p + burst_time ?p - remaining_time ?p \<le> ?t"
      using in1[of current] Cons by simp_all
    have e: "0 < ?e" "?e \<le> remaining_time ?p" using q curin by (simp_all add: e_def)
    have restin: "0 < remaining_time (?ps ! i) \<and>
        arrival_time (?ps ! i) + burst_time (?ps ! i) - remaining_time (?ps ! i) \<le> ?t + ?e"
      if "i \<in> set rest" for i
      using in1[of i] that Cons e(1) by auto
    show ?thesis
    proof (cases "remaining_time ?p - ?e = 0")
      case True
      let ?pc = "?p\<lparr>remaining_time := remaining_time ?p - ?e,
                     completion_time := Some (?t + ?e),
                     turnaround_time := Some (?t + ?e - arrival_time ?p),
                     waiting_time := Some (?t + ?e - arrival_time ?p - burst_time ?p)\<rparr>"
      have s': "processesCopy (rr_step quantum s) = ?ps[current := ?pc]"
        "queue (rr_step quantum s) = rest" "currentTime (rr_step quantum s) = ?t + ?e"
        unfolding st using True by simp_all
      have ok: "timing_ok ?pc" using True curin by (simp add: timing_ok_def)
      have "\<forall>i<length (?ps[current := ?pc]).
        if i \<in> set rest
        then 0 < remaining_time (?ps[current := ?pc] ! i) \<and>
             arrival_time (?ps[current := ?pc] ! i) + burst_time (?ps[current := ?pc] ! i)
               - remaining_time (?ps[current := ?pc] ! i) \<le> ?t + ?e
        else remaining_time (?ps[current := ?pc] ! i) = burst_time (?ps[current := ?pc] ! i) \<or>
             (remaining_time (?ps[current := ?pc] ! i) = 0 \<and> timing_ok (?ps[current := ?pc] ! i))"
      proof (intro allI impI)
        fix i assume i: "i < length (?ps[current := ?pc])"
        show "if i \<in> set rest
        then 0 < remaining_time (?ps[current := ?pc] ! i) \<and>
             arrival_time (?ps[current := ?pc] ! i) + burst_time (?ps[current := ?pc] ! i)
               - remaining_time (?ps[current := ?pc] ! i) \<le> ?t + ?e
        else remaining_time (?ps[current := ?pc] ! i) = burst_time (?ps[current := ?pc] ! i) \<or>
             (remaining_time (?ps[current := ?pc] ! i) = 0 \<and> timing_ok (?ps[current := ?pc] ! i))"
        proof (cases "i = current")
          case c: True
          then have "?ps[current := ?pc] ! i = ?pc" using cur(1) by simp
          then show ?thesis using c cur(2) ok True by simp
        next
          case c: False
          then have n: "?ps[current := ?pc] ! i = ?ps ! i" by simp
          show ?thesis
          proof (cases "i \<in> set rest")
            case True
            then show ?thesis unfolding n using restin by simp
          next
            case False
            then have "i \<notin> set ?q1" using c Cons by simp
            then show ?thesis unfolding n using out1[of i] i False by simp
          qed
        qed
      qed
      then show ?thesis unfolding rr_inv_def s' using cur by simp
    next
      case False
      let ?pc = "?p\<lparr>remaining_time := remaining_time ?p - ?e\<rparr>"
      have s': "processesCopy (rr_step quantum s) = ?ps[current := ?pc]"
        "queue (rr_step quantum s) = rest @ [current]" "currentTime (rr_step quantum s) = ?t + ?e"
        unfolding st using False by simp_all
      have pos: "0 < remaining_time ?p - ?e" using False e(2) by simp
      have "\<forall>i<length (?ps[current := ?pc]).
        if i \<in> set (rest @ [current])
        then 0 < remaining_time (?ps[current := ?pc] ! i) \<and>
             arrival_time (?ps[current := ?pc] ! i) + burst_time (?ps[current := ?pc] ! i)
               - remaining_time (?ps[current := ?pc] ! i) \<le> ?t + ?e
        else remaining_time (?ps[current := ?pc] ! i) = burst_time (?ps[current := ?pc] ! i) \<or>
             (remaining_time (?ps[current := ?pc] ! i) = 0 \<and> timing_ok (?ps[current := ?pc] ! i))"
      proof (intro allI impI)
        fix i assume i: "i < length (?ps[current := ?pc])"
        show "if i \<in> set (rest @ [current])
        then 0 < remaining_time (?ps[current := ?pc] ! i) \<and>
             arrival_time (?ps[current := ?pc] ! i) + burst_time (?ps[current := ?pc] ! i)
               - remaining_time (?ps[current := ?pc] ! i) \<le> ?t + ?e
        else remaining_time (?ps[current := ?pc] ! i) = burst_time (?ps[current := ?pc] ! i) \<or>
             (remaining_time (?ps[current := ?pc] ! i) = 0 \<and> timing_ok (?ps[current := ?pc] ! i))"
        proof (cases "i = current")
          case c: True
          then have "?ps[current := ?pc] ! i = ?pc" using cur(1) by simp
          then show ?thesis using c pos curin(2) by simp
        next
          case c: False
          then have n: "?ps[current := ?pc] ! i = ?ps ! i" by simp
          show ?thesis
          proof (cases "i \<in> set rest")
            case True
            then show ?thesis unfolding n using restin by simp
          next
            case False
            then have "i \<notin> set ?q1" using c Cons by simp
            then show ?thesis unfolding n using out1[of i] i False c by simp
          qed
        qed
      qed
      then show ?thesis unfolding rr_inv_def s' using cur by simp
    qed
  qed
qed

lemma rr_reach_inv:
  assumes "\<forall>p\<in>set ps. 0 < burst_time p" "0 < quantum"
  shows "s \<in> rr_reach quantum ps \<Longrightarrow> rr_inv s"
  by (induction rule: rr_reach.induct) (simp_all add: rr_inv_init rr_inv_step assms)

lemma rr_run_final:
  assumes "0 < quantum"
  shows "\<exists>s. s \<in> rr_reach quantum ps \<and> \<not> rr_cond s \<and>
           rr_run ps quantum = Some (timeline s, processesCopy s)"
  using rr_final_ex[OF assms, of ps] by (auto simp: rr_final_def rr_run_def)

lemma rr_cond_remaining:
  "\<not> rr_cond s \<Longrightarrow> queue s = [] \<and> (\<forall>p\<in>set (processesCopy s). remaining_time p \<le> 0)"
  by (auto simp: rr_cond_def list_ex_iff not_less)

lemma sum_list_zero: "\<forall>x\<in>set xs. f x = (0::int) \<Longrightarrow> sum_list (map f xs) = 0"
  by (induction xs) simp_all

lemma rr_run_properties:
  assumes q: "0 < quantum"
  shows "\<exists>segs finished. rr_run ps quantum = Some (segs, finished) \<and>
     roundRobinScheduling ps quantum = Some (segs, calculateStatistics finished) \<and>
     map static_fields finished = map static_fields ps \<and>
     (\<forall>seg\<in>set segs. duration seg \<le> quantum \<and> well_formed seg) \<and>
     ((\<forall>p\<in>set ps. 0 < burst_time p) \<longrightarrow>
        (\<forall>p\<in>set finished. timing_ok p) \<and>
        sum_list (map duration segs) = sum_list (map burst_time ps))"
proof -
  obtain s where r: "s \<in> rr_reach quantum ps" and c: "\<not> rr_cond s"
    and run: "rr_run ps quantum = Some (timeline s, processesCopy s)"
    using rr_run_final[OF q] by blast
  have 1: "roundRobinScheduling ps quantum = Some (timeline s, calculateStatistics (processesCopy s))"
    using run by (simp add: roundRobinScheduling_def)
  have 2: "map static_fields (processesCopy s) = map static_fields ps"
    using r by (rule rr_reach_static)
  have 3: "\<forall>seg\<in>set (timeline s). duration seg \<le> quantum \<and> well_formed seg"
    using rr_reach_bound[OF r] rr_reach_sum[OF r] by (simp add: rr_sum_def)
  have 4: "(\<forall>p\<in>set (processesCopy s). timing_ok p) \<and>
        sum_list (map duration (timeline s)) = sum_list (map burst_time ps)"
    if b: "\<forall>p\<in>set ps. 0 < burst_time p"
  proof -
    have inv: "rr_inv s" using b q r by (rule rr_reach_inv)
    have e: "queue s = []" and z: "\<forall>p\<in>set (processesCopy s). remaining_time p \<le> 0"
      using rr_cond_remaining[OF c] by simp_all
    have len: "length (processesCopy s) = length ps" using 2 by (metis length_map)
    have fin: "remaining_time (processesCopy s ! i) = 0 \<and> timing_ok (processesCopy s ! i)"
      if i: "i < length (processesCopy s)" for i
    proof -
      have "remaining_time (processesCopy s ! i) = burst_time (processesCopy s ! i) \<or>
          (remaining_time (processesCopy s ! i) = 0 \<and> timing_ok (processesCopy s ! i))"
        using inv i e unfolding rr_inv_def by (metis (no_types, lifting) empty_iff empty_set)
      moreover have "remaining_time (processesCopy s ! i) \<le> 0" using z i by simp
      moreover have "0 < burst_time (processesCopy s ! i)"
        using static_nth(3)[OF 2, of i] i len b by simp
      ultimately show ?thesis by auto
    qed
    have t: "\<forall>p\<in>set (processesCopy s). timing_ok p"
      using fin by (auto simp: in_set_conv_nth)
    have "\<forall>p\<in>set (processesCopy s). remaining_time p = 0"
      using fin by (auto simp: in_set_conv_nth)
    then have "sum_list (map remaining_time (processesCopy s)) = 0"
      by (rule sum_list_zero)
    then have "sum_list (map duration (timeline s)) = sum_list (map burst_time ps)"
      using rr_reach_sum[OF r] by (simp add: rr_sum_def)
    then show ?thesis using t by simp
  qed
  show ?thesis using run 1 2 3 4 by blast
qed

section \<open>The segments of roundRobinScheduling\<close>

text \<open>
  C3: for a positive quantum \<open>roundRobinScheduling\<close> returns, no segment of its
  timeline is longer than the quantum, and each dispatch appends one segment whose
  duration is the minimum of the quantum and the remaining time of the dispatched
  process.
\<close>

theorem round_robin_segment_bound:
  assumes "0 < quantum"
  shows "(\<exists>segs statistics. roundRobinScheduling processes quantum = Some (segs, statistics) \<and>
            (\<forall>seg\<in>set segs. duration seg \<le> quantum \<and> seg_end seg = start seg + duration seg)) \<and>
         (\<forall>s\<in>rr_reach quantum processes. rr_cond s \<longrightarrow>
            timeline (rr_step quantum s) =
              (case enqueue_arrived s of
                 [] \<Rightarrow> timeline s
               | current # rest \<Rightarrow> timeline s @
                   [\<lparr>seg_pid = pid (processesCopy s ! current), start = currentTime s,
                     seg_end = currentTime s +
                       min quantum (remaining_time (processesCopy s ! current)),
                     duration = min quantum (remaining_time (processesCopy s ! current))\<rparr>]))"
proof (intro conjI ballI impI)
  from rr_run_properties[OF assms, of processes]
  show "\<exists>segs statistics. roundRobinScheduling processes quantum = Some (segs, statistics) \<and>
            (\<forall>seg\<in>set segs. duration seg \<le> quantum \<and> seg_end seg = start seg + duration seg)"
    unfolding well_formed_def by blast
next
  fix s
  show "timeline (rr_step quantum s) =
              (case enqueue_arrived s of
                 [] \<Rightarrow> timeline s
               | current # rest \<Rightarrow> timeline s @
                   [\<lparr>seg_pid = pid (processesCopy s ! current), start = currentTime s,
                     seg_end = currentTime s +
                       min quantum (remaining_time (processesCopy s ! current)),
                     duration = min quantum (remaining_time (processesCopy s ! current))\<rparr>])"
    by (rule rr_step_timeline)
qed

lemma sample_rr:
  "roundRobinScheduling sample_processes 2 =
     Some ([\<lparr>seg_pid = 5, start = 0, seg_end = 1, duration = 1\<rparr>,
            \<lparr>seg_pid = 1, start = 1, seg_end = 3, duration = 2\<rparr>,
            \<lparr>seg_pid = 2, start = 3, seg_end = 5, duration = 2\<rparr>,
            \<lparr>seg_pid = 1, start = 5, seg_end = 6, duration = 1\<rparr>,
            \<lparr>seg_pid = 2, start = 6, seg_end = 7, duration = 1\<rparr>],
           Some \<lparr>avg_turnaround_time = Num (13 / 3), avg_waiting_time = Num 2,
                 avg_response_time = Num 2, total_time = Num 7, throughput = Num (3 / 7)\<rparr>)"
  by code_simp

theorem round_robin_segment_bound_witness:
  "(0::int) < 2 \<and>
   (\<exists>segs statistics. roundRobinScheduling sample_processes 2 = Some (segs, statistics) \<and>
      map duration segs = [1, 2, 2, 1, 1] \<and>
      (\<forall>seg\<in>set segs. duration seg \<le> 2 \<and> seg_end seg = start seg + duration seg))"
proof -
  have q: "(0::int) < 2" by simp
  from round_robin_segment_bound[OF q, of sample_processes]
  have "\<exists>segs statistics. roundRobinScheduling sample_processes 2 = Some (segs, statistics) \<and>
            (\<forall>seg\<in>set segs. duration seg \<le> 2 \<and> seg_end seg = start seg + duration seg)"
    by blast
  then show ?thesis unfolding sample_rr by simp
qed

section \<open>The timing fields of completed processes\<close>




section \<open>The durations of a timeline add up to the burst times\<close>



section \<open>Disk SCAN on the specification's example\<close>



end
